theory Spec2Isabelle
  imports Main
begin

section \<open>Python strings and character classes\<close>

text \<open>
  A Python \<^verbatim>\<open>str\<close> is a sequence of Unicode code points and \<^verbatim>\<open>len\<close> counts
  them, so a text is a list of code points. The literal strings of the source and of
  the scenarios are ASCII; \<open>str\<close> reads such a literal as a text.
\<close>

type_synonym codepoint = nat
type_synonym pystr = "codepoint list"

abbreviation str :: "string \<Rightarrow> pystr" where
  "str s \<equiv> map of_char s"

text \<open>
  A bracket expression of the pattern is the list of its members, in the order in which
  the pattern writes them: a range \<^verbatim>\<open>A-Z\<close> or a single character.
\<close>

datatype cset_item = Range char char | Single char

fun in_item :: "cset_item \<Rightarrow> codepoint \<Rightarrow> bool" where
  "in_item (Range a b) c = (of_char a \<le> c \<and> c \<le> of_char b)"
| "in_item (Single a) c = (c = of_char a)"

definition in_class :: "cset_item list \<Rightarrow> codepoint \<Rightarrow> bool" where
  "in_class cl c = list_ex (\<lambda>i. in_item i c) cl"

text \<open>
  \<^verbatim>\<open>\b\<close> in a \<^verbatim>\<open>str\<close> pattern is Unicode aware: a word character is an alphanumeric
  character or the underscore. Below 128 that is \<^verbatim>\<open>[a-zA-Z0-9_]\<close>. For the other code
  points the answer comes from the Unicode database of the interpreter, which is not part
  of the repository: it is the parameter \<open>isalnum\<close> of everything that follows.
\<close>

definition word_char :: "(codepoint \<Rightarrow> bool) \<Rightarrow> codepoint \<Rightarrow> bool" where
  "word_char isalnum c =
     (if c < 128
      then in_class [Range CHR ''a'' CHR ''z'', Range CHR ''A'' CHR ''Z'',
                     Range CHR ''0'' CHR ''9'', Single CHR ''_''] c
      else isalnum c)"

definition is_word :: "(codepoint \<Rightarrow> bool) \<Rightarrow> codepoint option \<Rightarrow> bool" where
  "is_word isalnum p = (case p of None \<Rightarrow> False | Some c \<Rightarrow> word_char isalnum c)"

text \<open>
  A position of the text is the character before it (\<open>None\<close> at the start of the text)
  and the rest of the text from it. The position is at a word boundary when exactly one of
  its two neighbours is a word character; a missing neighbour counts as a non-word one.
\<close>

definition at_boundary :: "(codepoint \<Rightarrow> bool) \<Rightarrow> codepoint option \<Rightarrow> pystr \<Rightarrow> bool" where
  "at_boundary isalnum prev rest =
     (is_word isalnum prev \<noteq> is_word isalnum (case rest of [] \<Rightarrow> None | c # _ \<Rightarrow> Some c))"

text \<open>
  A table for texts that are pure ASCII, where the answer for the other code points is
  never asked for (lemma \<open>find_emails_ascii_table\<close> below).
\<close>

definition no_wide_alnum :: "codepoint \<Rightarrow> bool" where
  "no_wide_alnum c = False"

section \<open>The regular expression engine\<close>

text \<open>
  The pattern of the source is a sequence of three kinds of items: the assertion
  \<^verbatim>\<open>\b\<close>, a literal character, and a greedy repetition \<^verbatim>\<open>[...]+\<close> or
  \<^verbatim>\<open>[...]{n,}\<close> of a bracket expression with a least count and no upper limit.

  \<open>match_here\<close> is the backtracking matcher of \<^verbatim>\<open>re\<close> at one position. It returns
  the number of characters of the match, or \<open>None\<close> when the pattern does not match
  there. A repetition takes one more character while it can, and gives characters back
  one at a time, down to its least count, while the rest of the pattern fails: the first
  success in that order is the match.
\<close>

datatype item = Boundary | Literal char | Max_Repeat nat "cset_item list"

fun match_here ::
  "(codepoint \<Rightarrow> bool) \<Rightarrow> item list \<Rightarrow> codepoint option \<Rightarrow> pystr \<Rightarrow> nat option" where
  "match_here isalnum [] prev rest = Some 0"
| "match_here isalnum (Boundary # its) prev rest =
     (if at_boundary isalnum prev rest then match_here isalnum its prev rest else None)"
| "match_here isalnum (Literal a # its) prev [] = None"
| "match_here isalnum (Literal a # its) prev (c # cs) =
     (if c = of_char a then map_option Suc (match_here isalnum its (Some c) cs) else None)"
| "match_here isalnum (Max_Repeat n cl # its) prev [] =
     (if n = 0 then match_here isalnum its prev [] else None)"
| "match_here isalnum (Max_Repeat n cl # its) prev (c # cs) =
     (if in_class cl c
      then (case match_here isalnum (Max_Repeat (n - 1) cl # its) (Some c) cs of
              Some k \<Rightarrow> Some (Suc k)
            | None \<Rightarrow> if n = 0 then match_here isalnum its prev (c # cs) else None)
      else if n = 0 then match_here isalnum its prev (c # cs) else None)"

text \<open>
  \<^verbatim>\<open>re.findall\<close> scans the text from left to right. Where the pattern matches, the
  matched substring is reported and the scan goes on at the end of the match; elsewhere it
  moves one character on. The character before the position stays visible to \<^verbatim>\<open>\b\<close>,
  also when it belongs to the match before. The branch of a match of length 0 moves one
  character on; the pattern of the source has no such match (\<open>email_match_long\<close>).
\<close>

function findall ::
  "(codepoint \<Rightarrow> bool) \<Rightarrow> item list \<Rightarrow> codepoint option \<Rightarrow> pystr \<Rightarrow> pystr list" where
  "findall isalnum its prev rest =
     (case match_here isalnum its prev rest of
        None \<Rightarrow> (case rest of [] \<Rightarrow> [] | c # cs \<Rightarrow> findall isalnum its (Some c) cs)
      | Some k \<Rightarrow>
          if k = 0
          then [] # (case rest of [] \<Rightarrow> [] | c # cs \<Rightarrow> findall isalnum its (Some c) cs)
          else take k rest # findall isalnum its (Some (rest ! (k - 1))) (drop k rest))"
  by pat_completeness auto
termination
proof (relation "measure (\<lambda>(isalnum, its, prev, rest). length rest)", goal_cases)
  case (4 isalnum its prev rest k)
  have "match_here isalnum its prev rest = Some j \<Longrightarrow> j \<le> length rest" for j
    by (induction isalnum its prev rest arbitrary: j rule: match_here.induct)
       (auto split: if_splits option.splits)
  with 4 show ?case by fastforce
qed auto

declare findall.simps [simp del]

section \<open>The extractor\<close>

text \<open>
  \<^verbatim>\<open>email_pattern = r'\b[A-Za-z0-9._%+-]+@[A-Za-z0-9.-]+\.[A-Z|a-z]{2,}\b'\<close>

  The three bracket expressions of the pattern, from left to right, and the pattern.
  Inside brackets \<^verbatim>\<open>|\<close> is an ordinary character, so the third expression has
  three members.
\<close>

definition local_class :: "cset_item list" where
  "local_class =
     [Range CHR ''A'' CHR ''Z'', Range CHR ''a'' CHR ''z'', Range CHR ''0'' CHR ''9'',
      Single CHR ''.'', Single CHR ''_'', Single CHR ''%'', Single CHR ''+'', Single CHR ''-'']"

definition domain_class :: "cset_item list" where
  "domain_class =
     [Range CHR ''A'' CHR ''Z'', Range CHR ''a'' CHR ''z'', Range CHR ''0'' CHR ''9'',
      Single CHR ''.'', Single CHR ''-'']"

definition tld_class :: "cset_item list" where
  "tld_class = [Range CHR ''A'' CHR ''Z'', Single CHR ''|'', Range CHR ''a'' CHR ''z'']"

definition email_pattern :: "item list" where
  "email_pattern =
     [Boundary, Max_Repeat 1 local_class, Literal CHR ''@'', Max_Repeat 1 domain_class,
      Literal CHR ''.'', Max_Repeat 2 tld_class, Boundary]"

text \<open>
  \<^verbatim>\<open>email.lower()\<close>. The source lowers matches only, and a match is pure ASCII
  (\<open>email_match_ascii\<close>), where \<^verbatim>\<open>lower\<close> maps \<^verbatim>\<open>A-Z\<close> to \<^verbatim>\<open>a-z\<close> and keeps every
  other character. The model keeps the code points from 128 on as they are.
\<close>

definition lower_char :: "codepoint \<Rightarrow> codepoint" where
  "lower_char c = (if in_item (Range CHR ''A'' CHR ''Z'') c then c + 32 else c)"

definition lower :: "pystr \<Rightarrow> pystr" where
  "lower s = map lower_char s"

text \<open>
  The loop of \<open>find_emails\<close> over the matches, with its two variables \<open>seen\<close> and
  \<open>unique_emails\<close> passed along.
\<close>

fun unique_loop :: "pystr list \<Rightarrow> pystr set \<Rightarrow> pystr list \<Rightarrow> pystr list" where
  "unique_loop [] seen unique_emails = unique_emails"
| "unique_loop (email # rest) seen unique_emails =
     (let email_lower = lower email in
      if email_lower \<notin> seen
      then unique_loop rest (insert email_lower seen) (unique_emails @ [email])
      else unique_loop rest seen unique_emails)"

definition find_emails :: "(codepoint \<Rightarrow> bool) \<Rightarrow> pystr \<Rightarrow> pystr list" where
  "find_emails isalnum text =
     (let found = findall isalnum email_pattern None text in unique_loop found {} [])"

record hunt_result =
  emails :: "pystr list"
  count :: nat
  text_length :: nat

definition hunt_emails :: "(codepoint \<Rightarrow> bool) \<Rightarrow> pystr \<Rightarrow> hunt_result" where
  "hunt_emails isalnum text =
     (let found = find_emails isalnum text in
      \<lparr>emails = found, count = length found, text_length = length text\<rparr>)"

text \<open>\<^verbatim>\<open>sep.join(xs)\<close>, used to feed the output of the extractor back to it.\<close>

fun join :: "pystr \<Rightarrow> pystr list \<Rightarrow> pystr" where
  "join sep [] = []"
| "join sep [x] = x"
| "join sep (x # y # ys) = x @ sep @ join sep (y # ys)"

section \<open>Notions of the specification\<close>

text \<open>
  What the pattern denotes when its word boundaries are left out: the strings that the
  items generate one after the other.
\<close>

fun shape :: "item list \<Rightarrow> pystr \<Rightarrow> bool" where
  "shape [] m = (m = [])"
| "shape (Boundary # its) m = shape its m"
| "shape (Literal a # its) m = (case m of [] \<Rightarrow> False | c # m' \<Rightarrow> c = of_char a \<and> shape its m')"
| "shape (Max_Repeat n cl # its) m =
     (\<exists>a b. m = a @ b \<and> n \<le> length a \<and> list_all (in_class cl) a \<and> shape its b)"

text \<open>
  The grammar of the specification: a token is \<^verbatim>\<open>local "@" domain "." tld\<close> with
  one or more characters of \<^verbatim>\<open>[A-Za-z0-9._%+-]\<close>, one or more of \<^verbatim>\<open>[A-Za-z0-9.-]\<close>
  and two or more top-level-domain characters, which the specification says are
  letters.
\<close>

definition letter :: "codepoint \<Rightarrow> bool" where
  "letter c = in_class [Range CHR ''A'' CHR ''Z'', Range CHR ''a'' CHR ''z''] c"

definition email_form :: "(codepoint \<Rightarrow> bool) \<Rightarrow> pystr \<Rightarrow> bool" where
  "email_form tld_char e =
     (\<exists>l d t. e = l @ str ''@'' @ d @ str ''.'' @ t
        \<and> 1 \<le> length l \<and> list_all (in_class local_class) l
        \<and> 1 \<le> length d \<and> list_all (in_class domain_class) d
        \<and> 2 \<le> length t \<and> list_all tld_char t)"

text \<open>
  The order of first occurrence, in the words of the specification: of the raw matches,
  those stay whose lowercase form no earlier raw match has, in their order and as they
  are written in the text.
\<close>

definition first_occurrences :: "pystr list \<Rightarrow> pystr list" where
  "first_occurrences ms =
     map (\<lambda>i. ms ! i)
       (filter (\<lambda>i. \<forall>j<i. lower (ms ! j) \<noteq> lower (ms ! i)) [0..<length ms])"

section \<open>Notions for feeding the output back\<close>

text \<open>
  A character at which an item cannot go on: a literal that it is not, a bracket
  expression that does not admit it. A text \<open>stops\<close> the items when it is empty or
  begins with a character at which none of them can go on.
\<close>

fun item_dead :: "codepoint \<Rightarrow> item \<Rightarrow> bool" where
  "item_dead c Boundary = True"
| "item_dead c (Literal a) = (c \<noteq> of_char a)"
| "item_dead c (Max_Repeat n cl) = (\<not> in_class cl c)"

definition stops :: "item list \<Rightarrow> pystr \<Rightarrow> bool" where
  "stops its r = (case r of [] \<Rightarrow> True | c # _ \<Rightarrow> list_all (item_dead c) its)"

definition next_word :: "(codepoint \<Rightarrow> bool) \<Rightarrow> pystr \<Rightarrow> bool" where
  "next_word isalnum r = is_word isalnum (case r of [] \<Rightarrow> None | c # _ \<Rightarrow> Some c)"

text \<open>
  An email has plain ends when it begins with a letter, a digit or an underscore and ends
  with a letter. A separator character is one that is no word character, that no bracket
  expression of the pattern admits and that is not \<^verbatim>\<open>@\<close>; the space is one.
\<close>

definition plain_ends :: "pystr \<Rightarrow> bool" where
  "plain_ends e =
     (e \<noteq> []
      \<and> in_class [Range CHR ''a'' CHR ''z'', Range CHR ''A'' CHR ''Z'',
                   Range CHR ''0'' CHR ''9'', Single CHR ''_''] (hd e)
      \<and> letter (last e))"

definition separator_char :: "(codepoint \<Rightarrow> bool) \<Rightarrow> codepoint \<Rightarrow> bool" where
  "separator_char isalnum c =
     (\<not> word_char isalnum c \<and> \<not> in_class local_class c \<and> \<not> in_class tld_class c
      \<and> c \<noteq> of_char CHR ''@'')"

section \<open>Evaluation\<close>

lemmas pattern_eval =
  email_pattern_def local_class_def domain_class_def tld_class_def
  at_boundary_def is_word_def word_char_def in_class_def

lemmas extractor_eval =
  find_emails_def hunt_emails_def lower_def lower_char_def findall.simps pattern_eval

lemmas ends_eval = plain_ends_def separator_char_def letter_def

section \<open>The result record\<close>

text \<open>
  C1. For every input text, the \<open>count\<close> field of the result of \<open>hunt_emails\<close> is the
  length of the \<open>emails\<close> sequence of the same result.
\<close>

theorem hunt_emails_count:
  "count (hunt_emails isalnum text) = length (emails (hunt_emails isalnum text))"
  by (simp add: hunt_emails_def Let_def)

text \<open>
  C8. For every input text, the \<open>text_length\<close> field of the result of \<open>hunt_emails\<close> is
  the number of characters of the input text itself, whatever the output sequence is.
\<close>

theorem hunt_emails_text_length:
  "text_length (hunt_emails isalnum text) = length text"
  by (simp add: hunt_emails_def Let_def)

text \<open>
  C7. \<open>hunt_emails\<close> is total: the matcher and the scan are defined by terminating
  recursion and no step of the source raises, so every text has a result, whose count is
  the length of its sequence and whose text length is that of the text. On the empty text
  the result is the empty sequence with count 0, and on a text in which the pattern has no
  match it is the empty sequence, count 0 and the length of the text.
\<close>

theorem hunt_emails_total:
  "(\<exists>r. hunt_emails isalnum text = r \<and> count r = length (emails r)
        \<and> text_length r = length text)
   \<and> hunt_emails isalnum [] = \<lparr>emails = [], count = 0, text_length = 0\<rparr>
   \<and> (findall isalnum email_pattern None text = [] \<longrightarrow>
        hunt_emails isalnum text = \<lparr>emails = [], count = 0, text_length = length text\<rparr>)"
  by (simp add: hunt_emails_def find_emails_def Let_def findall.simps[of _ _ _ "[]"] pattern_eval)

section \<open>The loop over the matches\<close>

lemma unique_loop_distinct:
  "seen = set (map lower u) \<Longrightarrow> distinct (map lower u)
   \<Longrightarrow> distinct (map lower (unique_loop ms seen u))"
proof (induction ms arbitrary: seen u)
  case Nil
  then show ?case by simp
next
  case (Cons m ms)
  show ?case
  proof (cases "lower m \<in> seen")
    case True
    with Cons.IH[OF Cons.prems] show ?thesis by simp
  next
    case False
    have "distinct (map lower (unique_loop ms (insert (lower m) seen) (u @ [m])))"
      by (rule Cons.IH) (use Cons.prems False in auto)
    with False show ?thesis by simp
  qed
qed

lemma first_occurrences_snoc:
  "first_occurrences (pre @ [m]) =
     first_occurrences pre @ (if lower m \<in> set (map lower pre) then [] else [m])"
proof -
  have a: "filter (\<lambda>i. \<forall>j<i. lower ((pre @ [m]) ! j) \<noteq> lower ((pre @ [m]) ! i)) [0..<length pre]
         = filter (\<lambda>i. \<forall>j<i. lower (pre ! j) \<noteq> lower (pre ! i)) [0..<length pre]"
    by (rule filter_cong) (auto simp: nth_append)
  have b: "map (\<lambda>i. (pre @ [m]) ! i) (filter P [0..<length pre])
         = map (\<lambda>i. pre ! i) (filter P [0..<length pre])" for P
    by (rule map_cong) (auto simp: nth_append)
  have c: "(\<forall>j<length pre. lower ((pre @ [m]) ! j) \<noteq> lower m) \<longleftrightarrow> lower m \<notin> set (map lower pre)"
  proof
    assume h: "\<forall>j<length pre. lower ((pre @ [m]) ! j) \<noteq> lower m"
    show "lower m \<notin> set (map lower pre)"
    proof
      assume "lower m \<in> set (map lower pre)"
      then obtain j where "j < length pre" "lower (pre ! j) = lower m"
        by (auto simp: in_set_conv_nth)
      with h show False by (auto simp: nth_append)
    qed
  next
    assume h: "lower m \<notin> set (map lower pre)"
    show "\<forall>j<length pre. lower ((pre @ [m]) ! j) \<noteq> lower m"
    proof (intro allI impI)
      fix j assume "j < length pre"
      then have "pre ! j \<in> set pre" by simp
      then have "lower (pre ! j) \<in> set (map lower pre)" by simp
      with h have "lower (pre ! j) \<noteq> lower m" by metis
      with \<open>j < length pre\<close> show "lower ((pre @ [m]) ! j) \<noteq> lower m"
        by (simp add: nth_append)
    qed
  qed
  show ?thesis
    unfolding first_occurrences_def using c
    by (simp add: a b)
qed

lemma unique_loop_first_occurrences:
  "seen = set (map lower pre) \<Longrightarrow> u = first_occurrences pre
   \<Longrightarrow> unique_loop ms seen u = first_occurrences (pre @ ms)"
proof (induction ms arbitrary: seen u pre)
  case Nil
  then show ?case by simp
next
  case (Cons m ms)
  have "unique_loop ms (if lower m \<notin> seen then insert (lower m) seen else seen)
          (if lower m \<notin> seen then u @ [m] else u) = first_occurrences ((pre @ [m]) @ ms)"
    by (rule Cons.IH) (use Cons.prems in \<open>auto simp: first_occurrences_snoc\<close>)
  then show ?case by (simp add: Let_def split: if_splits)
qed

lemma unique_loop_subset: "set (unique_loop ms seen u) \<subseteq> set u \<union> set ms"
proof (induction ms arbitrary: seen u)
  case Nil
  then show ?case by simp
next
  case (Cons m ms)
  from Cons.IH[of seen u] Cons.IH[of "insert (lower m) seen" "u @ [m]"]
  show ?case by (auto simp: Let_def)
qed

text \<open>
  C2. For every input text, no two entries of the sequence returned by \<open>find_emails\<close>
  have the same lowercase form.
\<close>

theorem find_emails_unique_modulo_case:
  "distinct (map lower (find_emails isalnum text))"
  by (simp add: find_emails_def unique_loop_distinct)

text \<open>
  C3. For every input text, \<open>find_emails\<close> returns the raw matches of the pattern whose
  lowercase form no earlier raw match has: each in the casing of the text, in the order
  of the text, and a later match that differs in case only is left out.
\<close>

theorem find_emails_first_occurrences:
  "find_emails isalnum text = first_occurrences (findall isalnum email_pattern None text)"
  using unique_loop_first_occurrences[of "{}" "[]" "[]" "findall isalnum email_pattern None text"]
  by (simp add: find_emails_def first_occurrences_def Let_def)

section \<open>What a match looks like\<close>

lemma match_here_le: "match_here isalnum its prev rest = Some k \<Longrightarrow> k \<le> length rest"
  by (induction isalnum its prev rest arbitrary: k rule: match_here.induct)
     (auto split: if_splits option.splits)

lemma match_here_shape:
  "match_here isalnum its prev rest = Some k \<Longrightarrow> shape its (take k rest)"
proof (induction isalnum its prev rest arbitrary: k rule: match_here.induct)
  case (6 isalnum n cl its prev c cs)
  show ?case
  proof (cases "in_class cl c")
    case True
    show ?thesis
    proof (cases "match_here isalnum (Max_Repeat (n - 1) cl # its) (Some c) cs")
      case None
      with "6.prems" True have n0: "n = 0" and m: "match_here isalnum its prev (c # cs) = Some k"
        by (auto split: if_splits)
      from "6.IH"(2)[OF True None n0 m] have "shape its (take k (c # cs))" .
      with n0 have "take k (c # cs) = [] @ take k (c # cs) \<and> n \<le> length ([]::pystr)
          \<and> list_all (in_class cl) [] \<and> shape its (take k (c # cs))" by simp
      then show ?thesis unfolding shape.simps by blast
    next
      case (Some j)
      with "6.prems" True have k: "k = Suc j" by simp
      from "6.IH"(1)[OF True Some] obtain a b where
        ab: "take j cs = a @ b" "n - 1 \<le> length a" "list_all (in_class cl) a" "shape its b"
        by auto
      with True k have "take k (c # cs) = (c # a) @ b \<and> n \<le> length (c # a)
          \<and> list_all (in_class cl) (c # a) \<and> shape its b" by simp
      then show ?thesis unfolding shape.simps by blast
    qed
  next
    case False
    with "6.prems" have n0: "n = 0" and m: "match_here isalnum its prev (c # cs) = Some k"
      by (auto split: if_splits)
    from "6.IH"(3)[OF False n0 m] have "shape its (take k (c # cs))" .
    with n0 have "take k (c # cs) = [] @ take k (c # cs) \<and> n \<le> length ([]::pystr)
        \<and> list_all (in_class cl) [] \<and> shape its (take k (c # cs))" by simp
    then show ?thesis unfolding shape.simps by blast
  qed
qed (auto split: if_splits)

lemma shape_email_form: "shape email_pattern m \<Longrightarrow> email_form (in_class tld_class) m"
proof -
  assume "shape email_pattern m"
  then obtain l r1 where l: "m = l @ r1" "1 \<le> length l" "list_all (in_class local_class) l"
    and r1: "shape [Literal CHR ''@'', Max_Repeat 1 domain_class,
      Literal CHR ''.'', Max_Repeat 2 tld_class, Boundary] r1"
    unfolding email_pattern_def by auto
  from r1 obtain r2 where r2: "r1 = of_char CHR ''@'' # r2"
    "shape [Max_Repeat 1 domain_class, Literal CHR ''.'', Max_Repeat 2 tld_class, Boundary] r2"
    by (cases r1) auto
  from r2(2) obtain d r3 where d: "r2 = d @ r3" "1 \<le> length d" "list_all (in_class domain_class) d"
    and r3: "shape [Literal CHR ''.'', Max_Repeat 2 tld_class, Boundary] r3"
    by auto
  from r3 obtain r4 where r4: "r3 = of_char CHR ''.'' # r4"
    "shape [Max_Repeat 2 tld_class, Boundary] r4"
    by (cases r3) auto
  from r4(2) have t: "2 \<le> length r4" "list_all (in_class tld_class) r4"
    by auto
  have "m = l @ str ''@'' @ d @ str ''.'' @ r4"
    using l(1) r2(1) d(1) r4(1) by simp
  with l(2,3) d(2,3) t show ?thesis
    unfolding email_form_def by blast
qed

lemma findall_matches:
  "m \<in> set (findall isalnum its prev rest)
   \<Longrightarrow> \<exists>p r. match_here isalnum its p (m @ r) = Some (length m)"
proof (induction isalnum its prev rest rule: findall.induct)
  case (1 isalnum its prev rest)
  show ?case
  proof (cases "match_here isalnum its prev rest")
    case None
    with 1(4) obtain c cs where r: "rest = c # cs" and "m \<in> set (findall isalnum its (Some c) cs)"
      by (subst (asm) findall.simps) (auto split: list.splits)
    with 1(1)[OF None r] show ?thesis by simp
  next
    case (Some k)
    show ?thesis
    proof (cases "k = 0")
      case True
      from 1(4) Some True have "m = [] \<or> (\<exists>c cs. rest = c # cs \<and> m \<in> set (findall isalnum its (Some c) cs))"
        by (subst (asm) findall.simps) (auto split: list.splits)
      then show ?thesis
      proof
        assume "m = []"
        with Some True have "match_here isalnum its prev (m @ rest) = Some (length m)" by simp
        then show ?thesis by blast
      next
        assume "\<exists>c cs. rest = c # cs \<and> m \<in> set (findall isalnum its (Some c) cs)"
        then obtain c cs where r: "rest = c # cs" and "m \<in> set (findall isalnum its (Some c) cs)"
          by blast
        with 1(2)[OF Some True r] show ?thesis by simp
      qed
    next
      case False
      from 1(4) Some False have "m = take k rest \<or> m \<in> set (findall isalnum its (Some (rest ! (k - 1))) (drop k rest))"
        by (subst (asm) findall.simps) auto
      then show ?thesis
      proof
        assume m: "m = take k rest"
        from match_here_le[OF Some] have "length m = k" using m by simp
        moreover have "rest = m @ drop k rest" using m by simp
        ultimately have "match_here isalnum its prev (m @ drop k rest) = Some (length m)"
          using Some by simp
        then show ?thesis by blast
      next
        assume "m \<in> set (findall isalnum its (Some (rest ! (k - 1))) (drop k rest))"
        with 1(3)[OF Some False] show ?thesis by simp
      qed
    qed
  qed
qed

lemma find_emails_matches:
  assumes "e \<in> set (find_emails isalnum text)"
  shows "\<exists>p r. match_here isalnum email_pattern p (e @ r) = Some (length e)"
proof -
  from assms have "e \<in> set (findall isalnum email_pattern None text)"
    using unique_loop_subset[of "findall isalnum email_pattern None text" "{}" "[]"]
    by (auto simp: find_emails_def Let_def)
  then show ?thesis by (rule findall_matches)
qed

text \<open>
  Every returned element is \<^verbatim>\<open>local "@" domain "." tld\<close> in the classes of the
  pattern: the top-level domain has two or more characters, each a letter or \<^verbatim>\<open>|\<close>.
\<close>

lemma find_emails_form:
  assumes "e \<in> set (find_emails isalnum text)"
  shows "email_form (in_class tld_class) e"
proof -
  from find_emails_matches[OF assms] obtain p r where
    "match_here isalnum email_pattern p (e @ r) = Some (length e)" by blast
  from match_here_shape[OF this] show ?thesis by (simp add: shape_email_form)
qed

lemma email_form_length: "email_form P e \<Longrightarrow> 6 \<le> length e"
  unfolding email_form_def by auto

lemma email_match_long:
  assumes "match_here isalnum email_pattern prev rest = Some k"
  shows "6 \<le> k"
proof -
  from match_here_shape[OF assms] have "email_form (in_class tld_class) (take k rest)"
    by (rule shape_email_form)
  then have "6 \<le> length (take k rest)" by (rule email_form_length)
  then show ?thesis by simp
qed

lemma local_class_ascii: "in_class local_class c \<Longrightarrow> c < 128"
  by (auto simp: in_class_def local_class_def)

lemma domain_class_ascii: "in_class domain_class c \<Longrightarrow> c < 128"
  by (auto simp: in_class_def domain_class_def)

lemma tld_class_ascii: "in_class tld_class c \<Longrightarrow> c < 128"
  by (auto simp: in_class_def tld_class_def)

lemma class_no_at:
  "\<not> in_class local_class (of_char CHR ''@'')"
  "\<not> in_class domain_class (of_char CHR ''@'')"
  "\<not> in_class tld_class (of_char CHR ''@'')"
  by (simp_all add: in_class_def local_class_def domain_class_def tld_class_def)

lemma email_form_ascii:
  assumes "email_form (in_class tld_class) e"
  shows "list_all (\<lambda>c. c < 128) e"
proof -
  from assms obtain l d t where e: "e = l @ str ''@'' @ d @ str ''.'' @ t"
    and l: "list_all (in_class local_class) l" and d: "list_all (in_class domain_class) d"
    and t: "list_all (in_class tld_class) t"
    unfolding email_form_def by blast
  from l have "list_all (\<lambda>c. c < 128) l"
    by (auto simp: list_all_iff local_class_ascii)
  moreover from d have "list_all (\<lambda>c. c < 128) d"
    by (auto simp: list_all_iff domain_class_ascii)
  moreover from t have "list_all (\<lambda>c. c < 128) t"
    by (auto simp: list_all_iff tld_class_ascii)
  ultimately show ?thesis using e by simp
qed

lemma email_match_ascii:
  "e \<in> set (find_emails isalnum text) \<Longrightarrow> list_all (\<lambda>c. c < 128) e"
  by (rule email_form_ascii) (rule find_emails_form)

lemma count_list_none: "list_all P xs \<Longrightarrow> \<not> P x \<Longrightarrow> count_list xs x = 0"
  by (induction xs) auto

lemma email_form_one_at:
  assumes "email_form (in_class tld_class) e"
  shows "count_list e (of_char CHR ''@'') = 1"
proof -
  from assms obtain l d t where e: "e = l @ str ''@'' @ d @ str ''.'' @ t"
    and l: "list_all (in_class local_class) l" and d: "list_all (in_class domain_class) d"
    and t: "list_all (in_class tld_class) t"
    unfolding email_form_def by blast
  have "count_list l (of_char CHR ''@'') = 0" "count_list d (of_char CHR ''@'') = 0"
    "count_list t (of_char CHR ''@'') = 0"
    using l d t class_no_at by (auto intro: count_list_none)
  then show ?thesis using e by simp
qed

text \<open>
  C10. For every input text, every element of the sequence returned by \<open>find_emails\<close>
  contains the character \<^verbatim>\<open>@\<close> exactly once.
\<close>

theorem find_emails_one_at:
  "e \<in> set (find_emails isalnum text) \<Longrightarrow> count_list e (of_char CHR ''@'') = 1"
  by (rule email_form_one_at) (rule find_emails_form)

lemma email_form_letter_end:
  assumes "email_form letter e"
  shows "letter (last (butlast e))"
proof -
  from assms obtain l d t where e: "e = l @ str ''@'' @ d @ str ''.'' @ t"
    and t: "2 \<le> length t" "list_all letter t"
    unfolding email_form_def by blast
  from t(1) have "t \<noteq> []" "butlast t \<noteq> []" by (auto simp: butlast_conv_take)
  then have "last (butlast e) = last (butlast t)"
    using e by (simp add: butlast_append)
  moreover have "last (butlast t) \<in> set t"
    using \<open>butlast t \<noteq> []\<close> by (meson in_set_butlastD last_in_set)
  ultimately show ?thesis using t(2) by (simp add: list_all_iff)
qed

section \<open>Texts that are pure ASCII\<close>

text \<open>
  On a text without a code point from 128 on, the table of the other word characters is
  never consulted: any two tables give the same matches.
\<close>

lemma word_char_ascii_table: "c < 128 \<Longrightarrow> word_char isalnum c = word_char isalnum' c"
  by (simp add: word_char_def)

lemma at_boundary_ascii_table:
  assumes "list_all (\<lambda>c. c < 128) rest" "\<forall>c. prev = Some c \<longrightarrow> c < 128"
  shows "at_boundary isalnum prev rest = at_boundary isalnum' prev rest"
proof -
  have "is_word isalnum prev = is_word isalnum' prev"
    using assms(2) by (cases prev) (simp_all add: is_word_def word_char_ascii_table[of _ isalnum isalnum'])
  moreover have "is_word isalnum (case rest of [] \<Rightarrow> None | c # _ \<Rightarrow> Some c)
      = is_word isalnum' (case rest of [] \<Rightarrow> None | c # _ \<Rightarrow> Some c)"
    using assms(1) by (cases rest) (simp_all add: is_word_def word_char_ascii_table[of _ isalnum isalnum'])
  ultimately show ?thesis by (simp add: at_boundary_def)
qed

lemma match_here_ascii_table:
  "list_all (\<lambda>c. c < 128) rest \<Longrightarrow> \<forall>c. prev = Some c \<longrightarrow> c < 128
   \<Longrightarrow> match_here isalnum its prev rest = match_here isalnum' its prev rest"
proof (induction isalnum its prev rest rule: match_here.induct)
  case (2 isalnum its prev rest)
  from at_boundary_ascii_table[OF "2.prems", of isalnum isalnum'] "2.IH" "2.prems"
  show ?case by simp
next
  case (6 isalnum n cl its prev c cs)
  from "6.prems" have cs: "list_all (\<lambda>c. c < 128) cs" "\<forall>d. Some c = Some d \<longrightarrow> d < 128"
    by simp_all
  show ?case
  proof (cases "in_class cl c")
    case True
    from "6.IH"(1)[OF True cs]
    have inner: "match_here isalnum (Max_Repeat (n - 1) cl # its) (Some c) cs
        = match_here isalnum' (Max_Repeat (n - 1) cl # its) (Some c) cs" .
    show ?thesis
    proof (cases "match_here isalnum (Max_Repeat (n - 1) cl # its) (Some c) cs")
      case None
      show ?thesis
      proof (cases "n = 0")
        case n: True
        from "6.IH"(2)[OF True None n "6.prems"] None inner True n show ?thesis by simp
      next
        case False
        with None inner True show ?thesis by simp
      qed
    next
      case (Some j)
      with inner True show ?thesis by simp
    qed
  next
    case False
    show ?thesis
    proof (cases "n = 0")
      case True
      from "6.IH"(3)[OF False True "6.prems"] False True show ?thesis by simp
    next
      case n: False
      with False show ?thesis by simp
    qed
  qed
qed simp_all

lemma findall_None:
  "match_here isalnum its prev rest = None
   \<Longrightarrow> findall isalnum its prev rest
       = (case rest of [] \<Rightarrow> [] | c # cs \<Rightarrow> findall isalnum its (Some c) cs)"
  by (subst findall.simps) simp

lemma findall_Some_0:
  "match_here isalnum its prev rest = Some 0
   \<Longrightarrow> findall isalnum its prev rest
       = [] # (case rest of [] \<Rightarrow> [] | c # cs \<Rightarrow> findall isalnum its (Some c) cs)"
  by (subst findall.simps) simp

lemma findall_Some:
  "match_here isalnum its prev rest = Some k \<Longrightarrow> k \<noteq> 0
   \<Longrightarrow> findall isalnum its prev rest
       = take k rest # findall isalnum its (Some (rest ! (k - 1))) (drop k rest)"
  by (subst findall.simps) simp

lemma findall_ascii_table:
  "list_all (\<lambda>c. c < 128) rest \<Longrightarrow> \<forall>c. prev = Some c \<longrightarrow> c < 128
   \<Longrightarrow> findall isalnum its prev rest = findall isalnum' its prev rest"
proof (induction isalnum its prev rest rule: findall.induct)
  case (1 isalnum its prev rest)
  note m = match_here_ascii_table[OF "1.prems", of isalnum its isalnum']
  show ?case
  proof (cases "match_here isalnum its prev rest")
    case None
    with m have None': "match_here isalnum' its prev rest = None" by simp
    show ?thesis
    proof (cases rest)
      case Nil
      with findall_None[OF None] findall_None[OF None'] show ?thesis by simp
    next
      case (Cons c cs)
      with "1.prems" have "list_all (\<lambda>c. c < 128) cs" "\<forall>d. Some c = Some d \<longrightarrow> d < 128"
        by simp_all
      from "1.IH"(1)[OF None Cons this] findall_None[OF None] findall_None[OF None'] Cons
      show ?thesis by simp
    qed
  next
    case (Some k)
    with m have Some': "match_here isalnum' its prev rest = Some k" by simp
    show ?thesis
    proof (cases "k = 0")
      case True
      note z = Some[unfolded True] Some'[unfolded True]
      show ?thesis
      proof (cases rest)
        case Nil
        with findall_Some_0[OF z(1)] findall_Some_0[OF z(2)] show ?thesis by simp
      next
        case (Cons c cs)
        with "1.prems" have "list_all (\<lambda>c. c < 128) cs" "\<forall>d. Some c = Some d \<longrightarrow> d < 128"
          by simp_all
        from "1.IH"(2)[OF Some True Cons this] findall_Some_0[OF z(1)] findall_Some_0[OF z(2)] Cons
        show ?thesis by simp
      qed
    next
      case False
      from match_here_le[OF Some] False have "k - 1 < length rest" by simp
      with "1.prems"(1) have a: "\<forall>d. Some (rest ! (k - 1)) = Some d \<longrightarrow> d < 128"
        by (simp add: list_all_length)
      from "1.prems"(1) have b: "list_all (\<lambda>c. c < 128) (drop k rest)"
        by (auto simp: list_all_iff dest: in_set_dropD)
      from "1.IH"(3)[OF Some False b a] findall_Some[OF Some False] findall_Some[OF Some' False]
      show ?thesis by simp
    qed
  qed
qed

lemma find_emails_ascii_table:
  "list_all (\<lambda>c. c < 128) text \<Longrightarrow> find_emails isalnum text = find_emails isalnum' text"
  using findall_ascii_table[of "text" None isalnum email_pattern isalnum']
  by (simp add: find_emails_def)

section \<open>Feeding the output back\<close>

lemma at_boundary_next: "at_boundary isalnum prev rest = (is_word isalnum prev \<noteq> next_word isalnum rest)"
  by (simp add: at_boundary_def next_word_def)

lemma next_word_Cons: "next_word isalnum (c # cs) = word_char isalnum c"
  by (simp add: next_word_def is_word_def)

lemma next_word_append: "a \<noteq> [] \<Longrightarrow> next_word isalnum (a @ r) = next_word isalnum a"
  by (cases a) (simp_all add: next_word_def)

lemma stops_tl: "stops (it # its) r \<Longrightarrow> stops its r"
  by (cases r) (simp_all add: stops_def)

lemma stops_repeat: "stops (Max_Repeat n cl # its) r \<Longrightarrow> stops (Max_Repeat n' cl # its) r"
  by (cases r) (simp_all add: stops_def)

lemma stops_literal: "stops (Literal a # its) (c # cs) \<Longrightarrow> c \<noteq> of_char a"
  by (simp add: stops_def)

lemma stops_class: "stops (Max_Repeat n cl # its) (c # cs) \<Longrightarrow> \<not> in_class cl c"
  by (simp add: stops_def)

lemma match_prev_word:
  "is_word isalnum prev = is_word isalnum prev'
   \<Longrightarrow> match_here isalnum its prev rest = match_here isalnum its prev' rest"
  by (induction isalnum its prev rest rule: match_here.induct)
     (auto simp: at_boundary_next split: option.splits)

lemma repeat_zero_succeeds:
  assumes "match_here isalnum its prev rest = Some j"
  shows "\<exists>j'. match_here isalnum (Max_Repeat 0 cl # its) prev rest = Some j'"
  using assms by (cases rest) (auto split: option.splits)

lemma repeat_zero_stops:
  assumes "stops (Max_Repeat n cl # its) r'"
  shows "match_here isalnum (Max_Repeat 0 cl # its) prev r' = match_here isalnum its prev r'"
  using assms by (cases r') (auto simp: stops_def)

text \<open>
  The text after a candidate match is replaced by one that stops the items and has a
  first character of the same kind for \<^verbatim>\<open>\b\<close>. If the pattern matches the new text,
  it matches the old one, possibly further.
\<close>

lemma match_cut_succeeds:
  "match_here isalnum its prev x = Some k \<Longrightarrow> x = a @ r' \<Longrightarrow> stops its r'
   \<Longrightarrow> next_word isalnum r = next_word isalnum r'
   \<Longrightarrow> \<exists>j. match_here isalnum its prev (a @ r) = Some j"
proof (induction isalnum its prev x arbitrary: a k rule: match_here.induct)
  case (1 isalnum prev rest)
  then show ?case by simp
next
  case (2 isalnum its prev rest)
  from "2.prems"(1) have b: "at_boundary isalnum prev rest"
    and m: "match_here isalnum its prev rest = Some k"
    by (auto split: if_splits)
  have "next_word isalnum (a @ r) = next_word isalnum (a @ r')"
  proof (cases a)
    case Nil
    with "2.prems"(4) show ?thesis by simp
  next
    case (Cons c' a')
    then show ?thesis by (simp add: next_word_Cons)
  qed
  with b "2.prems"(2) have b': "at_boundary isalnum prev (a @ r)"
    by (simp add: at_boundary_next)
  from "2.IH"[OF b m "2.prems"(2) stops_tl[OF "2.prems"(3)] "2.prems"(4)] b'
  show ?case by simp
next
  case (3 isalnum ch its prev)
  then show ?case by simp
next
  case (4 isalnum ch its prev c cs)
  from "4.prems"(1) have c: "c = of_char ch"
    and m: "\<exists>k'. match_here isalnum its (Some c) cs = Some k'"
    by (auto split: if_splits)
  show ?case
  proof (cases a)
    case Nil
    with "4.prems"(2,3) c show ?thesis using stops_literal by fastforce
  next
    case (Cons c' a')
    with "4.prems"(2) have eq: "c' = c" "cs = a' @ r'" by simp_all
    from m obtain k' where "match_here isalnum its (Some c) cs = Some k'" by blast
    from "4.IH"[OF c this eq(2) stops_tl[OF "4.prems"(3)] "4.prems"(4)] c Cons eq(1)
    show ?thesis by auto
  qed
next
  case (5 isalnum n cl its prev)
  from "5.prems"(1) have n: "n = 0" and m: "match_here isalnum its prev [] = Some k"
    by (auto split: if_splits)
  from "5.prems"(2) have a: "a = []" "r' = []" by simp_all
  from "5.IH"[OF n m _ stops_tl[OF "5.prems"(3)] "5.prems"(4), of a] a
  obtain j where "match_here isalnum its prev r = Some j" by auto
  from repeat_zero_succeeds[OF this] n a show ?case by simp
next
  case (6 isalnum n cl its prev c cs)
  show ?case
  proof (cases a)
    case Nil
    with "6.prems"(2) have r': "r' = c # cs" by simp
    with "6.prems"(3) have nc: "\<not> in_class cl c" using stops_class by blast
    with "6.prems"(1) have n: "n = 0" and m: "match_here isalnum its prev (c # cs) = Some k"
      by (auto split: if_splits)
    from "6.IH"(3)[OF nc n m "6.prems"(2) stops_tl[OF "6.prems"(3)] "6.prems"(4)]
    obtain j where "match_here isalnum its prev (a @ r) = Some j" by blast
    from repeat_zero_succeeds[OF this] n show ?thesis by simp
  next
    case (Cons c' a')
    with "6.prems"(2) have eq: "c' = c" "cs = a' @ r'" by simp_all
    show ?thesis
    proof (cases "in_class cl c")
      case True
      show ?thesis
      proof (cases "match_here isalnum (Max_Repeat (n - 1) cl # its) (Some c) cs")
        case (Some k')
        from "6.IH"(1)[OF True Some eq(2) stops_repeat[OF "6.prems"(3)] "6.prems"(4)]
        obtain j where "match_here isalnum (Max_Repeat (n - 1) cl # its) (Some c) (a' @ r) = Some j"
          by blast
        with True Cons eq(1) show ?thesis by simp
      next
        case None
        with "6.prems"(1) True have n: "n = 0"
          and m: "match_here isalnum its prev (c # cs) = Some k"
          by (auto split: if_splits)
        from "6.IH"(2)[OF True None n m "6.prems"(2) stops_tl[OF "6.prems"(3)] "6.prems"(4)]
        obtain j where "match_here isalnum its prev (a @ r) = Some j" by blast
        from repeat_zero_succeeds[OF this] n show ?thesis by simp
      qed
    next
      case False
      with "6.prems"(1) have n: "n = 0" and m: "match_here isalnum its prev (c # cs) = Some k"
        by (auto split: if_splits)
      from "6.IH"(3)[OF False n m "6.prems"(2) stops_tl[OF "6.prems"(3)] "6.prems"(4)]
      obtain j where "match_here isalnum its prev (a @ r) = Some j" by blast
      from repeat_zero_succeeds[OF this] n show ?thesis by simp
    qed
  qed
qed


text \<open>
  And a match of the old text that ends inside the part that is kept is the match of the
  new text: every attempt that the matcher makes before it fails in the new text too.
\<close>

lemma match_cut_same:
  "match_here isalnum its prev x = Some k \<Longrightarrow> x = a @ r \<Longrightarrow> k \<le> length a
   \<Longrightarrow> stops its r' \<Longrightarrow> next_word isalnum r = next_word isalnum r'
   \<Longrightarrow> match_here isalnum its prev (a @ r') = Some k"
proof (induction isalnum its prev x arbitrary: a k rule: match_here.induct)
  case (1 isalnum prev rest)
  then show ?case by simp
next
  case (2 isalnum its prev rest)
  from "2.prems"(1) have b: "at_boundary isalnum prev rest"
    and m: "match_here isalnum its prev rest = Some k"
    by (auto split: if_splits)
  have "next_word isalnum (a @ r) = next_word isalnum (a @ r')"
  proof (cases a)
    case Nil
    with "2.prems"(5) show ?thesis by simp
  next
    case (Cons c' a')
    then show ?thesis by (simp add: next_word_Cons)
  qed
  with b "2.prems"(2) have b': "at_boundary isalnum prev (a @ r')"
    by (simp add: at_boundary_next)
  from "2.IH"[OF b m "2.prems"(2,3) stops_tl[OF "2.prems"(4)] "2.prems"(5)] b'
  show ?case by simp
next
  case (3 isalnum ch its prev)
  then show ?case by simp
next
  case (4 isalnum ch its prev c cs)
  from "4.prems"(1) obtain k' where c: "c = of_char ch"
    and m: "match_here isalnum its (Some c) cs = Some k'" and k: "k = Suc k'"
    by (auto split: if_splits)
  from k "4.prems"(2,3) obtain a' where a: "a = c # a'" "cs = a' @ r" "k' \<le> length a'"
    by (cases a) auto
  from "4.IH"[OF c m a(2,3) stops_tl[OF "4.prems"(4)] "4.prems"(5)] c a(1) k
  show ?case by simp
next
  case (5 isalnum n cl its prev)
  from "5.prems"(1) have n: "n = 0" and m: "match_here isalnum its prev [] = Some k"
    by (auto split: if_splits)
  from "5.prems"(2) have a: "a = []" "r = []" by simp_all
  from "5.IH"[OF n m _ _ stops_tl[OF "5.prems"(4)] "5.prems"(5), of a] a "5.prems"(3)
  have "match_here isalnum its prev r' = Some k" by simp
  with repeat_zero_stops[OF "5.prems"(4)] n a show ?case by simp
next
  case (6 isalnum n cl its prev c cs)
  show ?case
  proof (cases a)
    case Nil
    with "6.prems"(3) have k: "k = 0" by simp
    with "6.prems"(1) have n: "n = 0" and m: "match_here isalnum its prev (c # cs) = Some k"
      and w: "\<not> in_class cl c \<or> match_here isalnum (Max_Repeat (n - 1) cl # its) (Some c) cs = None"
      by (auto split: if_splits option.splits)
    have "match_here isalnum its prev (a @ r') = Some k"
    proof (cases "in_class cl c")
      case True
      with w have "match_here isalnum (Max_Repeat (n - 1) cl # its) (Some c) cs = None" by simp
      from "6.IH"(2)[OF True this n m "6.prems"(2,3) stops_tl[OF "6.prems"(4)] "6.prems"(5)]
      show ?thesis .
    next
      case False
      from "6.IH"(3)[OF False n m "6.prems"(2,3) stops_tl[OF "6.prems"(4)] "6.prems"(5)]
      show ?thesis .
    qed
    with repeat_zero_stops[OF "6.prems"(4)] n Nil show ?thesis by simp
  next
    case (Cons c' a')
    with "6.prems"(2) have eq: "c' = c" "cs = a' @ r" by simp_all
    show ?thesis
    proof (cases "in_class cl c")
      case True
      show ?thesis
      proof (cases "match_here isalnum (Max_Repeat (n - 1) cl # its) (Some c) cs")
        case (Some j)
        with "6.prems"(1) True have k: "k = Suc j" by simp
        with "6.prems"(3) Cons have j: "j \<le> length a'" by simp
        from "6.IH"(1)[OF True Some eq(2) j stops_repeat[OF "6.prems"(4)] "6.prems"(5)]
        have "match_here isalnum (Max_Repeat (n - 1) cl # its) (Some c) (a' @ r') = Some j" .
        with True Cons eq(1) k show ?thesis by simp
      next
        case None
        with "6.prems"(1) True have n: "n = 0"
          and m: "match_here isalnum its prev (c # cs) = Some k"
          by (auto split: if_splits)
        have new_none: "match_here isalnum (Max_Repeat (n - 1) cl # its) (Some c) (a' @ r') = None"
        proof (rule ccontr)
          assume "match_here isalnum (Max_Repeat (n - 1) cl # its) (Some c) (a' @ r') \<noteq> None"
          then obtain j where
            "match_here isalnum (Max_Repeat (n - 1) cl # its) (Some c) (a' @ r') = Some j"
            by blast
          from match_cut_succeeds[OF this refl stops_repeat[OF "6.prems"(4)] "6.prems"(5)]
          show False using None eq(2) by simp
        qed
        from "6.IH"(2)[OF True None n m "6.prems"(2,3) stops_tl[OF "6.prems"(4)] "6.prems"(5)]
        have "match_here isalnum its prev (a @ r') = Some k" .
        with new_none True n Cons eq(1) show ?thesis by simp
      qed
    next
      case False
      with "6.prems"(1) have n: "n = 0" and m: "match_here isalnum its prev (c # cs) = Some k"
        by (auto split: if_splits)
      from "6.IH"(3)[OF False n m "6.prems"(2,3) stops_tl[OF "6.prems"(4)] "6.prems"(5)]
      have "match_here isalnum its prev (a @ r') = Some k" .
      with False n Cons eq(1) show ?thesis by simp
    qed
  qed
qed


lemma match_end_boundary:
  "match_here isalnum its prev rest = Some k \<Longrightarrow> its \<noteq> [] \<Longrightarrow> last its = Boundary
   \<Longrightarrow> at_boundary isalnum (if k = 0 then prev else Some (rest ! (k - 1))) (drop k rest)"
proof (induction isalnum its prev rest arbitrary: k rule: match_here.induct)
  case (2 isalnum its prev rest)
  then show ?case by (cases its) (auto split: if_splits)
next
  case (4 isalnum ch its prev c cs)
  from "4.prems"(1) obtain k' where c: "c = of_char ch"
    and m: "match_here isalnum its (Some c) cs = Some k'" and k: "k = Suc k'"
    by (auto split: if_splits)
  from "4.prems"(2,3) have "its \<noteq> []" "last its = Boundary" by (auto split: if_splits)
  from "4.IH"[OF c m this] k show ?case by (cases k') simp_all
next
  case (5 isalnum n cl its prev)
  from "5.prems"(1) have n: "n = 0" and m: "match_here isalnum its prev [] = Some k"
    by (auto split: if_splits)
  from "5.prems"(2,3) have "its \<noteq> []" "last its = Boundary" by (auto split: if_splits)
  from "5.IH"[OF n m this] show ?case .
next
  case (6 isalnum n cl its prev c cs)
  from "6.prems"(2,3) have its: "its \<noteq> []" "last its = Boundary" by (auto split: if_splits)
  show ?case
  proof (cases "in_class cl c \<and> match_here isalnum (Max_Repeat (n - 1) cl # its) (Some c) cs \<noteq> None")
    case True
    then obtain j where t: "in_class cl c"
      and j: "match_here isalnum (Max_Repeat (n - 1) cl # its) (Some c) cs = Some j" by auto
    with "6.prems"(1) have k: "k = Suc j" by simp
    from "6.IH"(1)[OF t j] its k show ?thesis by (cases j) simp_all
  next
    case False
    with "6.prems"(1) have n: "n = 0" and m: "match_here isalnum its prev (c # cs) = Some k"
      by (auto split: if_splits option.splits)
    show ?thesis
    proof (cases "in_class cl c")
      case True
      with False have "match_here isalnum (Max_Repeat (n - 1) cl # its) (Some c) cs = None" by simp
      from "6.IH"(2)[OF True this n m its] show ?thesis .
    next
      case False
      from "6.IH"(3)[OF False n m its] show ?thesis .
    qed
  qed
qed simp_all

lemma separator_stops:
  assumes "separator_char isalnum c"
  shows "stops email_pattern (c # cs)"
proof -
  from assms have "\<not> in_class domain_class c" "c \<noteq> of_char CHR ''.''"
    by (auto simp: separator_char_def in_class_def local_class_def domain_class_def)
  with assms show ?thesis
    by (simp add: stops_def email_pattern_def separator_char_def)
qed

lemma plain_ends_nonempty: "plain_ends e \<Longrightarrow> e \<noteq> []"
  by (simp add: plain_ends_def)

lemma plain_ends_hd: "plain_ends e \<Longrightarrow> word_char isalnum (hd e)"
  by (auto simp: plain_ends_def word_char_def in_class_def)

lemma plain_ends_last: "plain_ends e \<Longrightarrow> word_char isalnum (last e)"
  by (auto simp: plain_ends_def letter_def word_char_def in_class_def)

text \<open>
  A match with plain ends is found again when it stands between separators, at the start
  or at the end of a text.
\<close>

lemma rematch:
  assumes m: "match_here isalnum email_pattern p (e @ r) = Some (length e)"
    and pl: "plain_ends e"
    and prev: "\<not> is_word isalnum prev'"
    and r': "r' = [] \<or> separator_char isalnum (hd r')"
  shows "match_here isalnum email_pattern prev' (e @ r') = Some (length e)"
proof -
  note w = plain_ends_nonempty[OF pl] plain_ends_hd[OF pl, of isalnum]
    plain_ends_last[OF pl, of isalnum]
  from w(1) obtain c cs where e: "e = c # cs" by (cases e) auto
  from m have "at_boundary isalnum p (e @ r)"
    by (auto simp: email_pattern_def split: if_splits)
  with w(2) e have "\<not> is_word isalnum p"
    by (simp add: at_boundary_next next_word_Cons)
  with prev have "is_word isalnum p = is_word isalnum prev'" by simp
  from match_prev_word[OF this] m
  have m': "match_here isalnum email_pattern prev' (e @ r) = Some (length e)" by simp
  have "email_pattern \<noteq> []" "last email_pattern = Boundary"
    by (simp_all add: email_pattern_def)
  from match_end_boundary[OF m this] w(1)
  have "at_boundary isalnum (Some (last e)) r"
    by (simp add: nth_append last_conv_nth)
  with w(3) have nr: "\<not> next_word isalnum r"
    by (simp add: at_boundary_next is_word_def)
  have st: "stops email_pattern r'"
  proof (cases r')
    case Nil
    then show ?thesis by (simp add: stops_def)
  next
    case (Cons d ds)
    with r' show ?thesis by (simp add: separator_stops)
  qed
  have nr': "\<not> next_word isalnum r'"
  proof (cases r')
    case Nil
    then show ?thesis by (simp add: next_word_def is_word_def)
  next
    case (Cons d ds)
    with r' show ?thesis by (simp add: next_word_Cons separator_char_def)
  qed
  from nr nr' have "next_word isalnum r = next_word isalnum r'" by simp
  from match_cut_same[OF m' refl _ st this] show ?thesis by simp
qed

lemma no_match_at_separator:
  assumes "separator_char isalnum c"
  shows "match_here isalnum email_pattern prev (c # cs) = None"
  using assms by (simp add: email_pattern_def separator_char_def)

lemma no_match_at_end: "match_here isalnum email_pattern prev [] = None"
  by (simp add: email_pattern_def)

lemma findall_separators:
  assumes "list_all (separator_char isalnum) sep" "sep \<noteq> []"
  shows "findall isalnum email_pattern prev (sep @ rest)
         = findall isalnum email_pattern (Some (last sep)) rest"
  using assms
proof (induction sep arbitrary: prev)
  case Nil
  then show ?case by simp
next
  case (Cons c sep)
  from Cons.prems have c: "separator_char isalnum c" by simp
  have step: "findall isalnum email_pattern prev ((c # sep) @ rest)
        = findall isalnum email_pattern (Some c) (sep @ rest)"
    by (subst findall.simps) (simp add: no_match_at_separator[OF c])
  show ?case
  proof (cases sep)
    case Nil
    with step show ?thesis by simp
  next
    case (Cons d ds)
    with Cons.prems Cons.IH[of "Some c"] step show ?thesis by simp
  qed
qed

lemma findall_at_match:
  assumes "match_here isalnum its prev (e @ r) = Some (length e)" "e \<noteq> []"
  shows "findall isalnum its prev (e @ r) = e # findall isalnum its (Some (last e)) r"
  using assms by (subst findall.simps) (simp add: nth_append last_conv_nth)

lemma findall_join:
  "\<forall>e\<in>set ms. plain_ends e \<and> (\<exists>p r. match_here isalnum email_pattern p (e @ r) = Some (length e))
   \<Longrightarrow> \<not> is_word isalnum prev
   \<Longrightarrow> list_all (separator_char isalnum) sep \<Longrightarrow> sep \<noteq> []
   \<Longrightarrow> findall isalnum email_pattern prev (join sep ms) = ms"
proof (induction sep ms arbitrary: prev rule: join.induct)
  case (1 sep)
  then show ?case by (subst findall.simps) (simp add: no_match_at_end)
next
  case (2 sep x)
  then obtain p r where pl: "plain_ends x"
    and m: "match_here isalnum email_pattern p (x @ r) = Some (length x)" by auto
  from rematch[OF m pl "2.prems"(2), of "[]"]
  have "match_here isalnum email_pattern prev (x @ []) = Some (length x)" by simp
  from findall_at_match[OF this plain_ends_nonempty[OF pl]]
  have "findall isalnum email_pattern prev x = x # findall isalnum email_pattern (Some (last x)) []"
    by simp
  also have "findall isalnum email_pattern (Some (last x)) [] = []"
    by (subst findall.simps) (simp add: no_match_at_end)
  finally show ?case by simp
next
  case (3 sep x y ys)
  from "3.prems"(1) obtain p r where pl: "plain_ends x"
    and m: "match_here isalnum email_pattern p (x @ r) = Some (length x)" by auto
  from "3.prems"(3,4) have hd: "separator_char isalnum (hd sep)" and lst: "separator_char isalnum (last sep)"
    by (auto simp: list_all_iff)
  from hd "3.prems"(4) have "sep @ join sep (y # ys) = [] \<or> separator_char isalnum (hd (sep @ join sep (y # ys)))"
    by simp
  from rematch[OF m pl "3.prems"(2) this]
  have "match_here isalnum email_pattern prev (x @ sep @ join sep (y # ys)) = Some (length x)" .
  from findall_at_match[OF this plain_ends_nonempty[OF pl]]
  have "findall isalnum email_pattern prev (join sep (x # y # ys))
        = x # findall isalnum email_pattern (Some (last x)) (sep @ join sep (y # ys))"
    by simp
  also have "findall isalnum email_pattern (Some (last x)) (sep @ join sep (y # ys))
        = findall isalnum email_pattern (Some (last sep)) (join sep (y # ys))"
    by (rule findall_separators[OF "3.prems"(3,4)])
  also have "\<dots> = y # ys"
  proof (rule "3.IH")
    show "\<forall>e\<in>set (y # ys). plain_ends e
        \<and> (\<exists>p r. match_here isalnum email_pattern p (e @ r) = Some (length e))"
      using "3.prems"(1) by simp
    show "\<not> is_word isalnum (Some (last sep))"
      using lst by (simp add: is_word_def separator_char_def)
  qed (rule "3.prems"(3), rule "3.prems"(4))
  finally show ?case .
qed


lemma unique_loop_keeps:
  "distinct (map lower (u @ ms)) \<Longrightarrow> seen = set (map lower u)
   \<Longrightarrow> unique_loop ms seen u = u @ ms"
proof (induction ms arbitrary: seen u)
  case Nil
  then show ?case by simp
next
  case (Cons m ms)
  from Cons.prems have new: "lower m \<notin> seen" by auto
  have "unique_loop ms (insert (lower m) seen) (u @ [m]) = (u @ [m]) @ ms"
    by (rule Cons.IH) (use Cons.prems in auto)
  with new show ?case by simp
qed

lemma find_emails_again:
  assumes "list_all (separator_char isalnum) sep" "sep \<noteq> []"
    and "list_all plain_ends (find_emails isalnum text)"
  shows "find_emails isalnum (join sep (find_emails isalnum text)) = find_emails isalnum text"
proof -
  let ?ms = "find_emails isalnum text"
  have "\<forall>e\<in>set ?ms. plain_ends e
      \<and> (\<exists>p r. match_here isalnum email_pattern p (e @ r) = Some (length e))"
    using assms(3) find_emails_matches by (auto simp: list_all_iff)
  from findall_join[OF this _ assms(1,2), of None]
  have "findall isalnum email_pattern None (join sep ?ms) = ?ms"
    by (simp add: is_word_def)
  moreover have "unique_loop ?ms {} [] = [] @ ?ms"
    by (rule unique_loop_keeps) (simp_all add: find_emails_def unique_loop_distinct)
  ultimately show ?thesis by (simp add: find_emails_def[of isalnum "join sep ?ms"])
qed

text \<open>
  C9, for output with plain ends. Let the output of \<open>find_emails\<close> on a text be joined
  by a non-empty delimiter of separator characters, a single space for one. If every
  email of the output has plain ends, \<open>find_emails\<close> on the joined text returns the
  sequence of the first run, so the two runs have the same set of lowercase emails.
\<close>

theorem reextraction_same_set:
  "list_all (separator_char isalnum) sep \<Longrightarrow> sep \<noteq> []
   \<Longrightarrow> list_all plain_ends (find_emails isalnum text)
   \<Longrightarrow> find_emails isalnum (join sep (find_emails isalnum text)) = find_emails isalnum text
     \<and> set (map lower (find_emails isalnum (join sep (find_emails isalnum text))))
         = set (map lower (find_emails isalnum text))"
  by (simp add: find_emails_again)

section \<open>Scenarios\<close>

text \<open>
  C5. On the text \<^verbatim>\<open>bad-email@.com and good@ok.io\<close>, \<open>find_emails\<close> returns exactly
  \<^verbatim>\<open>good@ok.io\<close>: the pattern has one match in the text, and none at the start of the
  text, where the candidate with the domain \<^verbatim>\<open>.com\<close> begins.
\<close>

theorem scenario_dot_domain:
  "find_emails isalnum (str ''bad-email@.com and good@ok.io'') = [str ''good@ok.io'']
   \<and> findall isalnum email_pattern None (str ''bad-email@.com and good@ok.io'')
       = [str ''good@ok.io'']
   \<and> match_here isalnum email_pattern None (str ''bad-email@.com and good@ok.io'') = None"
  by (simp add: extractor_eval)

text \<open>
  C6. On the text \<^verbatim>\<open>Reach John at JOHN.DOE@Example.ORG and john.doe@example.org\<close>,
  \<open>hunt_emails\<close> returns the one email \<^verbatim>\<open>JOHN.DOE@Example.ORG\<close>, in the casing of the
  text, and the count 1: the pattern matches both occurrences and the loop drops the
  second, whose lowercase form has been seen.
\<close>

theorem scenario_case_duplicate:
  "emails (hunt_emails isalnum
      (str ''Reach John at JOHN.DOE@Example.ORG and john.doe@example.org''))
     = [str ''JOHN.DOE@Example.ORG'']
   \<and> count (hunt_emails isalnum
      (str ''Reach John at JOHN.DOE@Example.ORG and john.doe@example.org'')) = 1
   \<and> findall isalnum email_pattern None
      (str ''Reach John at JOHN.DOE@Example.ORG and john.doe@example.org'')
     = [str ''JOHN.DOE@Example.ORG'', str ''john.doe@example.org'']"
  by (simp add: extractor_eval)

text \<open>
  C4. The specification says that the top-level domain of every returned element consists
  of letters only. On the text \<^verbatim>\<open>a@b.c|d\<close> the code returns the whole text as an email,
  and that string is not of the form of the specification: its last but one character is
  \<^verbatim>\<open>|\<close>, which the third bracket expression of the pattern admits.
\<close>

theorem tld_pipe_accepted:
  "find_emails no_wide_alnum (str ''a@b.c|d'') = [str ''a@b.c|d'']
   \<and> \<not> email_form letter (str ''a@b.c|d'')"
proof
  show "find_emails no_wide_alnum (str ''a@b.c|d'') = [str ''a@b.c|d'']"
    by (simp add: extractor_eval)
  show "\<not> email_form letter (str ''a@b.c|d'')"
  proof
    assume "email_form letter (str ''a@b.c|d'')"
    from email_form_letter_end[OF this] show False
      by (simp add: letter_def in_class_def)
  qed
qed

theorem find_emails_one_at_witness:
  "str ''good@ok.io'' \<in> set (find_emails no_wide_alnum (str ''write to good@ok.io now''))
   \<and> count_list (str ''good@ok.io'') (of_char CHR ''@'') = 1"
proof -
  have h: "str ''good@ok.io'' \<in> set (find_emails no_wide_alnum (str ''write to good@ok.io now''))"
    by (simp add: extractor_eval)
  from h find_emails_one_at[OF h] show ?thesis by simp
qed

theorem hunt_emails_total_witness:
  "findall no_wide_alnum email_pattern None (str ''no address in here'') = []
   \<and> hunt_emails no_wide_alnum (str ''no address in here'')
       = \<lparr>emails = [], count = 0, text_length = 18\<rparr>"
proof -
  have h: "findall no_wide_alnum email_pattern None (str ''no address in here'') = []"
    by (simp add: findall.simps pattern_eval)
  from hunt_emails_total[of no_wide_alnum "str ''no address in here''"] h
  show ?thesis by simp
qed

theorem find_emails_first_occurrences_witness:
  "first_occurrences (findall no_wide_alnum email_pattern None (str ''A@b.co a@B.co c@d.ee''))
     = [str ''A@b.co'', str ''c@d.ee'']"
  using find_emails_first_occurrences[of no_wide_alnum "str ''A@b.co a@B.co c@d.ee''", symmetric]
  by (simp add: extractor_eval)

theorem reextraction_same_set_witness:
  "list_all (separator_char no_wide_alnum) (str '' '') \<and> str '' '' \<noteq> []
   \<and> list_all plain_ends
        (find_emails no_wide_alnum (str ''Contact support@company.com or sales@company.com.''))
   \<and> find_emails no_wide_alnum (str ''Contact support@company.com or sales@company.com.'')
       = [str ''support@company.com'', str ''sales@company.com'']
   \<and> set (map lower (find_emails no_wide_alnum (join (str '' '')
        (find_emails no_wide_alnum (str ''Contact support@company.com or sales@company.com.'')))))
       = set (map lower
        (find_emails no_wide_alnum (str ''Contact support@company.com or sales@company.com.'')))"
proof -
  have f: "find_emails no_wide_alnum (str ''Contact support@company.com or sales@company.com.'')
       = [str ''support@company.com'', str ''sales@company.com'']"
    by (simp add: extractor_eval)
  have s: "list_all (separator_char no_wide_alnum) (str '' '')" "str '' '' \<noteq> []"
    by (simp_all add: ends_eval pattern_eval)
  have p: "list_all plain_ends
        (find_emails no_wide_alnum (str ''Contact support@company.com or sales@company.com.''))"
    unfolding f by (simp add: ends_eval in_class_def)
  from reextraction_same_set[OF s p] s p f show ?thesis by blast
qed

text \<open>
  Without the condition on the ends the two runs can differ. On \<^verbatim>\<open>a@b.co-x@y.zz\<close> the second match begins with the
  hyphen, right after the first match; after a space the hyphen is no longer at a word
  boundary, and the second run finds \<^verbatim>\<open>x@y.zz\<close> instead.
\<close>

theorem reextraction_counterexample:
  "set (map lower (find_emails no_wide_alnum (join (str '' '')
        (find_emails no_wide_alnum (str ''a@b.co-x@y.zz'')))))
   \<noteq> set (map lower (find_emails no_wide_alnum (str ''a@b.co-x@y.zz'')))"
proof -
  have f: "find_emails no_wide_alnum (str ''a@b.co-x@y.zz'') = [str ''a@b.co'', str ''-x@y.zz'']"
    by (simp add: extractor_eval)
  have g: "find_emails no_wide_alnum (join (str '' '') [str ''a@b.co'', str ''-x@y.zz''])
       = [str ''a@b.co'', str ''x@y.zz'']"
    by (simp add: extractor_eval)
  show ?thesis
    unfolding f g
  proof
    assume eq: "set (map lower [str ''a@b.co'', str ''x@y.zz''])
        = set (map lower [str ''a@b.co'', str ''-x@y.zz''])"
    have "lower (str ''-x@y.zz'') \<in> set (map lower [str ''a@b.co'', str ''-x@y.zz''])"
      by simp
    with eq have "lower (str ''-x@y.zz'') \<in> set (map lower [str ''a@b.co'', str ''x@y.zz''])"
      by blast
    then show False by (simp add: lower_def lower_char_def)
  qed
qed

end
